theory Spec2Isabelle
  imports Main "HOL-Library.Extended_Nat" "HOL-Library.Sublist"
begin

section \<open>Data model\<close>

text \<open>
  \<^verbatim>\<open>src/utils.ts\<close> works on two kinds of objects that it imports from
  \<^verbatim>\<open>./Task\<close> and \<^verbatim>\<open>./TaskInstance\<close>: task instances, which it reads and
  mutates through their properties, and tasks, of which it reads the instance
  sequences, the ceiling and the policy flags. Instances are shared mutable
  objects (the same object is reachable from \<^verbatim>\<open>_instances\<close> and from every
  derived sequence), so they live in an explicit store and sequences hold
  addresses.
\<close>

type_synonym addr = nat

text \<open>
  A JavaScript value, as far as the utilities look at one; \<open>TypeErr\<close> is the
  \<^verbatim>\<open>TypeError\<close> object the language makes.
\<close>

datatype jsval = Undefined | Str string | Obj nat | TypeErr

datatype status = Pending | Running | Enqueued | Successful | Error | Canceled | Dropped

text \<open>
  The properties of a task instance that \<^verbatim>\<open>utils.ts\<close> touches: the six
  booleans (\<^verbatim>\<open>dropEnqueued\<close> assigns two of them, \<^verbatim>\<open>printTask\<close> reads the
  rest), \<^verbatim>\<open>value\<close> and \<^verbatim>\<open>error\<close> (read by \<^verbatim>\<open>printTask\<close>).
  \<open>signalCanceled\<close> is the \<^verbatim>\<open>isCanceled\<close> flag of the abort signal the
  instance owns. The booleans are the stored state of an instance: they are
  what \<^verbatim>\<open>utils.ts\<close> assigns.
\<close>

record task_instance =
  isEnqueued :: bool
  isRunning :: bool
  isSuccessful :: bool
  isError :: bool
  isCanceled :: bool
  isDropped :: bool
  ivalue :: jsval
  ierror :: jsval
  signalCanceled :: bool

text \<open>
  Modelled from the spec: the property \<^verbatim>\<open>status\<close> of a task instance, which
  \<^verbatim>\<open>TaskInstance.ts\<close> defines and \<^verbatim>\<open>printTask\<close> reads; that file is not part
  of the sources. The spec: ``status: enum {pending, running, enqueued,
  successful, error, canceled, dropped}'', with the booleans ``each true iff
  status equals the corresponding value (kept consistent by construction,
  never independently settable)''. \<^verbatim>\<open>utils.ts\<close> assigns booleans and never
  \<^verbatim>\<open>status\<close>, so the status is the value that is read off the booleans;
  \<^verbatim>\<open>pending\<close> is the status of an instance none of whose booleans is set.
  The order of the tests matters only for an instance with two booleans set.
\<close>

definition status :: "task_instance \<Rightarrow> status" where
  "status i =
     (if isRunning i then Running
      else if isEnqueued i then Enqueued
      else if isCanceled i then Canceled
      else if isDropped i then Dropped
      else if isError i then Error
      else if isSuccessful i then Successful
      else Pending)"

type_synonym store = "addr \<Rightarrow> task_instance"

text \<open>
  The properties of a task that \<^verbatim>\<open>utils.ts\<close> reads, without their leading
  underscore. \<^verbatim>\<open>_maxConcurrency\<close> is a JavaScript number that is an integer or
  \<^verbatim>\<open>Infinity\<close> (``integer \<open>\<ge>\<close> 1 ... otherwise unbounded''), hence \<^typ>\<open>enat\<close>.
\<close>

record task =
  instances :: "addr list"
  maxConcurrency :: enat
  isDropping :: bool
  isEnqueuing :: bool
  isRestartable :: bool
  isKeepingLatest :: bool

text \<open>The names of the boolean-valued properties of a task instance.\<close>

datatype bkey = IsEnqueued | IsRunning | IsSuccessful | IsError | IsCanceled | IsDropped

fun prop_of :: "task_instance \<Rightarrow> bkey \<Rightarrow> bool" where
  "prop_of i IsEnqueued = isEnqueued i"
| "prop_of i IsRunning = isRunning i"
| "prop_of i IsSuccessful = isSuccessful i"
| "prop_of i IsError = isError i"
| "prop_of i IsCanceled = isCanceled i"
| "prop_of i IsDropped = isDropped i"

text \<open>
  Reading index \<open>i\<close> of a JavaScript array: \<^verbatim>\<open>undefined\<close> (here \<open>None\<close>) outside
  \<open>0 \<le> i < length\<close>, and never an exception.
\<close>

definition js_index :: "'a list \<Rightarrow> int \<Rightarrow> 'a option" where
  "js_index xs i = (if 0 \<le> i \<and> i < int (length xs) then Some (xs ! nat i) else None)"

subsection \<open>The derived sequences of a task\<close>

text \<open>
  Modelled from the spec: \<^verbatim>\<open>_runningInstances\<close>, \<^verbatim>\<open>_enqueuedInstances\<close> and
  \<^verbatim>\<open>_activeInstances\<close> are properties of the task that \<^verbatim>\<open>Task.ts\<close> defines,
  and that file is not part of the sources. The spec: ``derived (computed, not
  stored): runningInstances, activeInstances (running \<open>\<union>\<close> enqueued),
  enqueuedInstances -- all subsequences of instances filtered by instance
  state''. They are read off the instance booleans, as every filtered view of
  the derived-view layer is.
\<close>

definition runningInstances :: "store \<Rightarrow> task \<Rightarrow> addr list" where
  "runningInstances s t = filter (\<lambda>a. isRunning (s a)) (instances t)"

definition enqueuedInstances :: "store \<Rightarrow> task \<Rightarrow> addr list" where
  "enqueuedInstances s t = filter (\<lambda>a. isEnqueued (s a)) (instances t)"

definition activeInstances :: "store \<Rightarrow> task \<Rightarrow> addr list" where
  "activeInstances s t = filter (\<lambda>a. isRunning (s a) \<or> isEnqueued (s a)) (instances t)"

subsection \<open>Cancelling an instance\<close>

text \<open>
  Modelled from the spec: \<^verbatim>\<open>cancel()\<close> is a method of the task instance,
  defined in \<^verbatim>\<open>TaskInstance.ts\<close>, which is not part of the sources. The spec:
  ``transitions status to canceled if currently running or enqueued;
  idempotent; sets the owned AbortSignal's isCanceled = true and settles its
  promise. No-op on terminal instances.'' ``Currently running or enqueued'' is
  read off the two booleans, which the derived sequences filter on. The method
  touches the one instance it is called on.
\<close>

definition cancel :: "addr \<Rightarrow> store \<Rightarrow> store" where
  "cancel a s =
     (if isRunning (s a) \<or> isEnqueued (s a)
      then s(a := (s a)\<lparr>isEnqueued := False, isRunning := False,
                        isCanceled := True, signalCanceled := True\<rparr>)
      else s)"

section \<open>The policy helpers of \<^verbatim>\<open>utils.ts\<close>\<close>

text \<open>
  \<^verbatim>\<open>task._runningInstances.length >= task._maxConcurrency\<close>
\<close>

definition reachedMaxConcurrency :: "store \<Rightarrow> task \<Rightarrow> bool" where
  "reachedMaxConcurrency s t \<longleftrightarrow> enat (length (runningInstances s t)) \<ge> maxConcurrency t"

text \<open>
  \<^verbatim>\<open>const firstRunningInstance = task._activeInstances[0];
  if (firstRunningInstance) { firstRunningInstance.cancel(); }\<close>
  An instance is an object, hence truthy; the test fails exactly on
  \<^verbatim>\<open>undefined\<close>.
\<close>

definition cancelFirstRunning :: "task \<Rightarrow> store \<Rightarrow> store" where
  "cancelFirstRunning t s =
     (case js_index (activeInstances s t) 0 of
        None \<Rightarrow> s
      | Some firstRunningInstance \<Rightarrow> cancel firstRunningInstance s)"

text \<open>
  \<^verbatim>\<open>task._enqueuedInstances.forEach((instance) => {
    instance.isEnqueued = false; instance.isDropped = true; });\<close>
  The sequence is read once; \<^verbatim>\<open>forEach\<close> then walks that array while the
  callback mutates the instances in the store.
\<close>

definition drop_instance :: "addr \<Rightarrow> store \<Rightarrow> store" where
  "drop_instance a s = s(a := (s a)\<lparr>isEnqueued := False, isDropped := True\<rparr>)"

definition dropEnqueued :: "task \<Rightarrow> store \<Rightarrow> store" where
  "dropEnqueued t s = fold drop_instance (enqueuedInstances s t) s"

section \<open>The derived-view layer\<close>

text \<open>
  \<^verbatim>\<open>computed(f)\<close> is a value that is recomputed from the current state when it
  is read: a function of the state at the read. The state a view of a task can
  depend on is the task object and the instance store.
\<close>

record world =
  the_task :: task
  the_store :: store

type_synonym ('w, 'a) computed = "'w \<Rightarrow> 'a"

text \<open>
  \<^verbatim>\<open>collection.filter((item) => { const curr = item[key];
     if (value) { return curr === value; } return curr; })\<close>
  on a collection of task instances and one of their boolean keys. \<open>value\<close> is
  the optional third parameter; \<open>None\<close> is \<^verbatim>\<open>undefined\<close>.
\<close>

definition computedFilterBy ::
  "(world, addr list) computed \<Rightarrow> bkey \<Rightarrow> bool option \<Rightarrow> (world, addr list) computed" where
  "computedFilterBy cb key val w =
     (let collection = cb w in
      filter (\<lambda>item.
        let curr = prop_of (the_store w item) key in
        if val = Some True then curr = True else curr) collection)"

text \<open>
  \<^verbatim>\<open>if (!key) { return computed(() => []); }
  return computedFilterBy(() => cb()._instances, key);\<close>
  Every key of the type is a non-empty string, hence truthy; \<open>None\<close> is a call
  without a key.
\<close>

definition filteredInstances ::
  "(world, task) computed \<Rightarrow> bkey option \<Rightarrow> (world, addr list) computed" where
  "filteredInstances cb key =
     (case key of
        None \<Rightarrow> (\<lambda>w. [])
      | Some k \<Rightarrow> computedFilterBy (\<lambda>w. instances (cb w)) k None)"

definition computedLength :: "('w, 'a list) computed \<Rightarrow> ('w, nat) computed" where
  "computedLength cb w = length (cb w)"

definition computedLastOf :: "('w, 'a list) computed \<Rightarrow> ('w, 'a option) computed" where
  "computedLastOf cb w = (let collection = cb w in js_index collection (int (length collection) - 1))"

definition computedFirstOf :: "('w, 'a list) computed \<Rightarrow> ('w, 'a option) computed" where
  "computedFirstOf cb w = (let collection = cb w in js_index collection 0)"

section \<open>Consistency of the booleans with the status\<close>

text \<open>
  The relation the spec states between the six booleans and \<^verbatim>\<open>status\<close>: each
  boolean is true iff the status is the value of the same name. It holds of an
  instance exactly when no two of its booleans are set.
\<close>

definition consistent :: "task_instance \<Rightarrow> bool" where
  "consistent i \<longleftrightarrow>
     (isEnqueued i \<longleftrightarrow> status i = Enqueued) \<and>
     (isRunning i \<longleftrightarrow> status i = Running) \<and>
     (isSuccessful i \<longleftrightarrow> status i = Successful) \<and>
     (isError i \<longleftrightarrow> status i = Error) \<and>
     (isCanceled i \<longleftrightarrow> status i = Canceled) \<and>
     (isDropped i \<longleftrightarrow> status i = Dropped)"

section \<open>Promises and \<^verbatim>\<open>defer\<close>\<close>

text \<open>
  The state of a JavaScript promise.
\<close>

datatype promise = PendingP | Fulfilled jsval | Rejected jsval

text \<open>
  What \<^verbatim>\<open>resolve\<close> can be called with. The resolving function of the language
  fulfils the promise with a value that is not a thenable; a thenable (an
  object with a \<^verbatim>\<open>then\<close> method, another promise for one) it follows instead,
  so that the promise takes the state the thenable leads to, \<open>PendingP\<close> for
  one that never settles; the promise itself it refuses, rejecting with a
  \<^verbatim>\<open>TypeError\<close>.
\<close>

datatype resolution = Plain jsval | Thenable promise | Itself

fun resolution_state :: "resolution \<Rightarrow> promise" where
  "resolution_state (Plain v) = Fulfilled v"
| "resolution_state (Thenable p) = p"
| "resolution_state Itself = Rejected TypeErr"

text \<open>
  \<^verbatim>\<open>const promise = new Promise((resolve, reject) => {
     deferredObject.resolve = resolve; deferredObject.reject = reject; });
  deferredObject.promise = promise;\<close>
  \<^verbatim>\<open>new Promise(executor)\<close> creates a pending promise and hands the executor
  the two resolving functions of that promise, which the object keeps. By the
  language definition the two share one flag, here \<open>alreadyResolved\<close>: the
  first call of either sets it and decides the promise, each later call
  returns without doing anything, and none throws. \<open>promise\<close> is the state
  the promise is in once what the first call started has run its course: at
  once for \<^verbatim>\<open>reject\<close> and for a plain value, when the thenable settles for a
  thenable.
\<close>

record deferredObject =
  promise :: promise
  alreadyResolved :: bool

definition defer_object :: deferredObject where
  "defer_object = \<lparr>promise = PendingP, alreadyResolved = False\<rparr>"

definition resolve :: "resolution \<Rightarrow> deferredObject \<Rightarrow> deferredObject" where
  "resolve x d =
     (if alreadyResolved d then d
      else d\<lparr>promise := resolution_state x, alreadyResolved := True\<rparr>)"

definition reject :: "jsval \<Rightarrow> deferredObject \<Rightarrow> deferredObject" where
  "reject r d =
     (if alreadyResolved d then d
      else d\<lparr>promise := Rejected r, alreadyResolved := True\<rparr>)"

text \<open>
  A call of one of the two functions of a deferred object, and the state the
  promise of a fresh deferred object is to take from it.
\<close>

datatype settle_call = Resolve resolution | Reject jsval

fun settle :: "settle_call \<Rightarrow> deferredObject \<Rightarrow> deferredObject" where
  "settle (Resolve x) d = resolve x d"
| "settle (Reject r) d = reject r d"

fun outcome :: "settle_call \<Rightarrow> promise" where
  "outcome (Resolve x) = resolution_state x"
| "outcome (Reject r) = Rejected r"

section \<open>The cancel-token adapter\<close>

text \<open>
  The abort signal handed to \<^verbatim>\<open>getCancelToken\<close>; the adapter reads its promise
  \<^verbatim>\<open>pr\<close>. The token of the HTTP client is cancelled by calling the \<^verbatim>\<open>cancel\<close>
  function that the client hands to the executor.
\<close>

record abortSignalWithPromise =
  pr :: promise

record cancelToken =
  cancelRequested :: bool

definition new_token :: cancelToken where
  "new_token = \<lparr>cancelRequested = False\<rparr>"

definition token_cancel :: "cancelToken \<Rightarrow> cancelToken" where
  "token_cancel tok = tok\<lparr>cancelRequested := True\<rparr>"

text \<open>
  \<^verbatim>\<open>p.catch(handler)\<close>: the handler runs, with the reason, once \<open>p\<close> is rejected,
  and never while \<open>p\<close> is pending or when it is fulfilled. The function gives
  the effect of the handler on a state \<open>x\<close>, for the state \<open>p\<close> of the promise.
\<close>

definition promise_catch :: "promise \<Rightarrow> (jsval \<Rightarrow> 'x \<Rightarrow> 'x) \<Rightarrow> 'x \<Rightarrow> 'x" where
  "promise_catch p handler x = (case p of Rejected reason \<Rightarrow> handler reason x | _ \<Rightarrow> x)"

text \<open>
  \<^verbatim>\<open>new axios.CancelToken((cancel) => {
     signal.pr.catch((reason) => { if (reason === "cancel") { cancel(); } }); })\<close>
  The token, as it stands for a given state of the signal's promise.
\<close>

definition getCancelToken :: "abortSignalWithPromise \<Rightarrow> cancelToken" where
  "getCancelToken signal =
     promise_catch (pr signal)
       (\<lambda>reason tok. if reason = Str ''cancel'' then token_cancel tok else tok)
       new_token"

section \<open>Admission and the life of an instance\<close>

text \<open>
  \<^verbatim>\<open>printTask\<close> names the policy of a task from its flags; a later assignment
  overrides an earlier one.
\<close>

datatype policy = General | Drop | Enqueue | Restartable | KeepLatest

definition taskType :: "task \<Rightarrow> policy" where
  "taskType t =
     (if isKeepingLatest t then KeepLatest
      else if isRestartable t then Restartable
      else if isEnqueuing t then Enqueue
      else if isDropping t then Drop
      else General)"

definition blank_instance :: task_instance where
  "blank_instance =
     \<lparr>isEnqueued = False, isRunning = False, isSuccessful = False,
      isError = False, isCanceled = False, isDropped = False,
      ivalue = Undefined, ierror = Undefined, signalCanceled = False\<rparr>"

definition started :: "task_instance \<Rightarrow> task_instance" where
  "started i = i\<lparr>isEnqueued := False, isRunning := True\<rparr>"

definition enqueued :: "task_instance \<Rightarrow> task_instance" where
  "enqueued i = i\<lparr>isEnqueued := True\<rparr>"

definition dropped :: "task_instance \<Rightarrow> task_instance" where
  "dropped i = i\<lparr>isDropped := True\<rparr>"

definition add_instance :: "task_instance \<Rightarrow> task \<Rightarrow> store \<Rightarrow> world" where
  "add_instance i t s =
     (let a = length (instances t)
      in \<lparr>the_task = t\<lparr>instances := instances t @ [a]\<rparr>, the_store = s(a := i)\<rparr>)"

text \<open>
  Modelled from the spec: \<^verbatim>\<open>perform\<close> is defined in \<^verbatim>\<open>Task.ts\<close>, which is not
  part of the sources. The spec gives the admission rule of each policy ``when
  \<^verbatim>\<open>runningInstances.length \<ge> maxConcurrency\<close>'': General, ``no ceiling
  enforced; every instance runs immediately''; Drop, ``new instance is
  immediately marked dropped''; Enqueue, ``new instance is marked enqueued'';
  Restartable, ``the first currently-running instance is cancelled to free a
  slot for the new instance, which then runs''; KeepLatest, ``all
  currently-enqueued instances are marked dropped; running instances are left
  alone; the new instance is enqueued''. Below the ceiling the new instance
  runs. The helpers are the ones of \<^verbatim>\<open>utils.ts\<close>; the new instance is the
  next one in invocation order.
\<close>

definition perform :: "world \<Rightarrow> world" where
  "perform w =
     (let t = the_task w; s = the_store w in
      if \<not> reachedMaxConcurrency s t then add_instance (started blank_instance) t s
      else case taskType t of
        General \<Rightarrow> add_instance (started blank_instance) t s
      | Drop \<Rightarrow> add_instance (dropped blank_instance) t s
      | Enqueue \<Rightarrow> add_instance (enqueued blank_instance) t s
      | Restartable \<Rightarrow> add_instance (started blank_instance) t (cancelFirstRunning t s)
      | KeepLatest \<Rightarrow> add_instance (enqueued blank_instance) t (dropEnqueued t s))"

text \<open>
  Modelled from the spec: the transitions of an admitted instance, which
  \<^verbatim>\<open>TaskInstance.ts\<close> and \<^verbatim>\<open>Task.ts\<close> define. The spec: ``running \<open>\<rightarrow>\<close>
  {successful | error | canceled}; enqueued \<open>\<rightarrow>\<close> {running | dropped |
  canceled}'', ``on normal return, instance \<open>\<rightarrow>\<close> successful with value set; on
  throw/rejection, instance \<open>\<rightarrow>\<close> error with error set'', and ``enqueued
  instances are promoted to running in strict FIFO order as slots free, never
  exceeding maxConcurrency concurrently running''.
\<close>

datatype event =
  Perform
| Succeed addr jsval
| Fail addr jsval
| CancelInstance addr
| RunEnqueued

definition succeed :: "addr \<Rightarrow> jsval \<Rightarrow> store \<Rightarrow> store" where
  "succeed a v s =
     (if isRunning (s a)
      then s(a := (s a)\<lparr>isRunning := False, isSuccessful := True, ivalue := v\<rparr>)
      else s)"

definition fail :: "addr \<Rightarrow> jsval \<Rightarrow> store \<Rightarrow> store" where
  "fail a e s =
     (if isRunning (s a)
      then s(a := (s a)\<lparr>isRunning := False, isError := True, ierror := e\<rparr>)
      else s)"

definition runEnqueued :: "task \<Rightarrow> store \<Rightarrow> store" where
  "runEnqueued t s =
     (case enqueuedInstances s t of
        [] \<Rightarrow> s
      | a # _ \<Rightarrow> if reachedMaxConcurrency s t then s else s(a := started (s a)))"

fun step :: "event \<Rightarrow> world \<Rightarrow> world" where
  "step Perform w = perform w"
| "step (Succeed a v) w = w\<lparr>the_store := succeed a v (the_store w)\<rparr>"
| "step (Fail a e) w = w\<lparr>the_store := fail a e (the_store w)\<rparr>"
| "step (CancelInstance a) w = w\<lparr>the_store := cancel a (the_store w)\<rparr>"
| "step RunEnqueued w = w\<lparr>the_store := runEnqueued (the_task w) (the_store w)\<rparr>"

text \<open>A task that has not been performed yet, and the state after a sequence of events.\<close>

definition init_world :: "task \<Rightarrow> world" where
  "init_world t = \<lparr>the_task = t\<lparr>instances := []\<rparr>, the_store = (\<lambda>_. blank_instance)\<rparr>"

definition run_events :: "event list \<Rightarrow> task \<Rightarrow> world" where
  "run_events evs t = fold step evs (init_world t)"

definition running_count :: "world \<Rightarrow> nat" where
  "running_count w = length (runningInstances (the_store w) (the_task w))"

section \<open>Invariants of a run\<close>

text \<open>
  What holds in every state a task reaches: the instance sequence is
  \<open>0, 1, \<dots>\<close> in invocation order; a task that never enqueues has no enqueued
  instance; a task with a policy stays within its ceiling.
\<close>

definition no_enqueued :: "world \<Rightarrow> bool" where
  "no_enqueued w \<longleftrightarrow> (\<forall>a. \<not> isEnqueued (the_store w a))"

definition admission_inv :: "world \<Rightarrow> bool" where
  "admission_inv w \<longleftrightarrow>
     instances (the_task w) = [0..<length (instances (the_task w))] \<and>
     (taskType (the_task w) \<noteq> Enqueue \<and> taskType (the_task w) \<noteq> KeepLatest \<longrightarrow> no_enqueued w) \<and>
     (taskType (the_task w) \<noteq> General \<longrightarrow> enat (running_count w) \<le> maxConcurrency (the_task w))"

definition all_consistent :: "world \<Rightarrow> bool" where
  "all_consistent w \<longleftrightarrow> (\<forall>a. consistent (the_store w a))"

section \<open>Example states\<close>

text \<open>
  A keep-latest task with four instances: one dropped, one running, two
  enqueued; and a store in which the task has nothing active.
\<close>

definition demo_task :: task where
  "demo_task = \<lparr>instances = [0, 1, 2, 3], maxConcurrency = 1, isDropping = False,
     isEnqueuing = False, isRestartable = False, isKeepingLatest = True\<rparr>"

definition demo_store :: store where
  "demo_store = (\<lambda>_. blank_instance)
     (0 := dropped blank_instance, 1 := started blank_instance,
      2 := enqueued blank_instance, 3 := enqueued blank_instance)"

definition idle_store :: store where
  "idle_store = (\<lambda>_. blank_instance)(0 := dropped blank_instance)"

definition demo_world :: world where
  "demo_world = \<lparr>the_task = demo_task, the_store = demo_store\<rparr>"

text \<open>
  A restartable task at its ceiling of two: the oldest instance has completed,
  the two younger ones run, nothing is enqueued.
\<close>

definition restart_task :: task where
  "restart_task = \<lparr>instances = [0, 1, 2], maxConcurrency = 2, isDropping = False,
     isEnqueuing = False, isRestartable = True, isKeepingLatest = False\<rparr>"

definition restart_store :: store where
  "restart_store = succeed 0 Undefined ((\<lambda>_. blank_instance)
     (0 := started blank_instance, 1 := started blank_instance, 2 := started blank_instance))"

text \<open>A task without a policy flag and with a ceiling of one.\<close>

definition general1 :: task where
  "general1 = \<lparr>instances = [], maxConcurrency = 1, isDropping = False,
     isEnqueuing = False, isRestartable = False, isKeepingLatest = False\<rparr>"

section \<open>Helper facts\<close>

lemma js_index_Nil: "js_index [] i = None"
  by (simp add: js_index_def)

lemma js_index_0_Cons: "js_index (x # xs) 0 = Some x"
  by (simp add: js_index_def)

lemma js_index_last: "xs \<noteq> [] \<Longrightarrow> js_index xs (int (length xs) - 1) = Some (last xs)"
  by (cases xs rule: rev_cases) (simp_all add: js_index_def nat_diff_distrib')

lemma fold_drop_instance:
  "fold drop_instance xs s a =
     (if a \<in> set xs then (s a)\<lparr>isEnqueued := False, isDropped := True\<rparr> else s a)"
  by (induction xs arbitrary: s) (auto simp: drop_instance_def)

lemma filter_Cons_split:
  "filter P xs = a # rest \<Longrightarrow>
     \<exists>older newer. xs = older @ a # newer \<and> (\<forall>b \<in> set older. \<not> P b) \<and> P a \<and> filter P newer = rest"
  by (auto simp: filter_eq_Cons_iff)

lemmas demo_defs = demo_task_def demo_store_def blank_instance_def started_def enqueued_def dropped_def

lemmas restart_defs = restart_task_def restart_store_def succeed_def blank_instance_def started_def

subsection \<open>Settling a promise\<close>

lemma settle_settled: "alreadyResolved d \<Longrightarrow> settle c d = d"
  by (cases c) (simp_all add: resolve_def reject_def)

lemma fold_settle_settled: "alreadyResolved d \<Longrightarrow> fold settle cs d = d"
  by (induction cs arbitrary: d) (simp_all add: settle_settled)

lemma settle_first: "promise (settle c defer_object) = outcome c"
  by (cases c) (simp_all add: resolve_def reject_def defer_object_def)

lemma settle_first_decides: "alreadyResolved (settle c defer_object)"
  by (cases c) (simp_all add: resolve_def reject_def defer_object_def)

lemma fold_settle_Cons: "fold settle (c # cs) defer_object = settle c defer_object"
  by (simp add: fold_settle_settled settle_first_decides)

lemma promise_fold_settle_Cons: "promise (fold settle (c # cs) defer_object) = outcome c"
  unfolding fold_settle_Cons by (rule settle_first)

subsection \<open>Counting running instances\<close>

lemma filter_length_mono:
  "(\<forall>a \<in> set xs. Q a \<longrightarrow> P a) \<Longrightarrow> length (filter Q xs) \<le> length (filter P xs)"
  by (induction xs) auto

lemma filter_length_less:
  "a \<in> set xs \<Longrightarrow> P a \<Longrightarrow> \<not> Q a \<Longrightarrow> (\<forall>b \<in> set xs. Q b \<longrightarrow> P b)
     \<Longrightarrow> length (filter Q xs) < length (filter P xs)"
proof (induction xs)
  case Nil
  then show ?case by simp
next
  case (Cons x xs)
  have m: "length (filter Q xs) \<le> length (filter P xs)"
    using Cons.prems(4) by (intro filter_length_mono) simp
  show ?case
  proof (cases "x = a")
    case True
    then show ?thesis using Cons.prems m by simp
  next
    case False
    then have "length (filter Q xs) < length (filter P xs)"
      using Cons by simp
    then show ?thesis using Cons.prems(4) by auto
  qed
qed

lemma filter_length_one_more:
  "distinct xs \<Longrightarrow> (\<forall>b \<in> set xs. b \<noteq> a \<longrightarrow> (Q b \<longleftrightarrow> P b))
     \<Longrightarrow> length (filter Q xs) \<le> Suc (length (filter P xs))"
proof (induction xs)
  case Nil
  then show ?case by simp
next
  case (Cons x xs)
  show ?case
  proof (cases "x = a")
    case True
    then have "a \<notin> set xs" using Cons.prems(1) by simp
    then have "filter Q xs = filter P xs"
      using Cons.prems(2) by (intro filter_cong) auto
    then show ?thesis by simp
  next
    case False
    then show ?thesis using Cons by auto
  qed
qed

lemma enat_below_ceiling: "\<not> m \<le> enat k \<Longrightarrow> enat (Suc k) \<le> m"
  by (cases m) auto

lemma enat_at_ceiling: "1 \<le> m \<Longrightarrow> m \<le> enat k \<Longrightarrow> 0 < k"
  by (cases m) (auto simp: one_enat_def)


lemma cancel_running_le:
  "length (filter (\<lambda>b. isRunning (cancel a s b)) xs) \<le> length (filter (\<lambda>b. isRunning (s b)) xs)"
  by (rule filter_length_mono) (simp add: cancel_def)

lemma succeed_running_le:
  "length (filter (\<lambda>b. isRunning (succeed a v s b)) xs) \<le> length (filter (\<lambda>b. isRunning (s b)) xs)"
  by (rule filter_length_mono) (simp add: succeed_def)

lemma fail_running_le:
  "length (filter (\<lambda>b. isRunning (fail a e s b)) xs) \<le> length (filter (\<lambda>b. isRunning (s b)) xs)"
  by (rule filter_length_mono) (simp add: fail_def)

lemma dropEnqueued_isRunning: "isRunning (dropEnqueued t s a) = isRunning (s a)"
  by (simp add: dropEnqueued_def fold_drop_instance)

lemma dropEnqueued_running: "runningInstances (dropEnqueued t s) t' = runningInstances s t'"
  by (simp add: runningInstances_def dropEnqueued_isRunning)

lemma cancel_not_enqueued: "\<not> isEnqueued (s b) \<Longrightarrow> \<not> isEnqueued (cancel a s b)"
  by (simp add: cancel_def)

lemma cancelFirstRunning_not_enqueued:
  "\<not> isEnqueued (s b) \<Longrightarrow> \<not> isEnqueued (cancelFirstRunning t s b)"
  by (simp add: cancelFirstRunning_def cancel_not_enqueued split: option.split)

text \<open>Evicting the oldest active instance frees a running slot when nothing is enqueued.\<close>

lemma cancelFirstRunning_frees_slot:
  assumes "\<forall>a. \<not> isEnqueued (s a)" and "runningInstances s t \<noteq> []"
  shows "length (runningInstances (cancelFirstRunning t s) t) < length (runningInstances s t)"
proof -
  have eq: "activeInstances s t = runningInstances s t"
    using assms(1) by (simp add: activeInstances_def runningInstances_def)
  obtain a rest where "runningInstances s t = a # rest"
    using assms(2) by (auto simp: neq_Nil_conv)
  then have act: "activeInstances s t = a # rest"
    using eq by simp
  then have c: "cancelFirstRunning t s = cancel a s"
    by (simp add: cancelFirstRunning_def js_index_0_Cons)
  have "a \<in> set (runningInstances s t)" using act eq by simp
  then have mem: "a \<in> set (instances t)" and run: "isRunning (s a)"
    by (simp_all add: runningInstances_def)
  have "length (filter (\<lambda>b. isRunning (cancel a s b)) (instances t))
          < length (filter (\<lambda>b. isRunning (s b)) (instances t))"
    using mem run by (rule filter_length_less) (simp_all add: cancel_def)
  then show ?thesis by (simp add: c runningInstances_def)
qed

lemma running_add_instance:
  assumes "instances t = [0..<length (instances t)]"
  shows "running_count (add_instance i t s)
           = length (runningInstances s t) + (if isRunning i then 1 else 0)"
proof -
  let ?n = "length (instances t)"
  have "?n \<notin> set (instances t)" using assms by (metis atLeastLessThan_iff less_irrefl set_upt)
  then have "filter (\<lambda>a. isRunning ((s(?n := i)) a)) (instances t)
               = filter (\<lambda>a. isRunning (s a)) (instances t)"
    by (intro filter_cong) auto
  then show ?thesis
    by (simp add: running_count_def add_instance_def Let_def runningInstances_def)
qed

lemma instances_add_instance:
  assumes "instances t = [0..<length (instances t)]"
  shows "instances (the_task (add_instance i t s))
           = [0..<length (instances (the_task (add_instance i t s)))]"
proof -
  have "instances t @ [length (instances t)] = [0..<Suc (length (instances t))]"
    using assms by (metis upt_Suc_append zero_le)
  then show ?thesis by (simp add: add_instance_def Let_def)
qed

lemma taskType_add_instance [simp]: "taskType (the_task (add_instance i t s)) = taskType t"
  by (simp add: add_instance_def Let_def taskType_def)

lemma maxConcurrency_add_instance [simp]:
  "maxConcurrency (the_task (add_instance i t s)) = maxConcurrency t"
  by (simp add: add_instance_def Let_def)

lemma no_enqueued_add_instance:
  "\<not> isEnqueued i \<Longrightarrow> \<forall>a. \<not> isEnqueued (s a) \<Longrightarrow> no_enqueued (add_instance i t s)"
  by (simp add: no_enqueued_def add_instance_def Let_def)

lemma add_instance_inv:
  assumes shape: "instances t = [0..<length (instances t)]"
    and ne: "taskType t \<noteq> Enqueue \<Longrightarrow> taskType t \<noteq> KeepLatest
               \<Longrightarrow> \<not> isEnqueued i \<and> (\<forall>a. \<not> isEnqueued (s a))"
    and c: "taskType t \<noteq> General
               \<Longrightarrow> enat (length (runningInstances s t) + (if isRunning i then 1 else 0))
                     \<le> maxConcurrency t"
  shows "admission_inv (add_instance i t s)"
  unfolding admission_inv_def
proof (intro conjI impI)
  show "instances (the_task (add_instance i t s))
          = [0..<length (instances (the_task (add_instance i t s)))]"
    by (rule instances_add_instance [OF shape])
next
  assume "taskType (the_task (add_instance i t s)) \<noteq> Enqueue \<and>
          taskType (the_task (add_instance i t s)) \<noteq> KeepLatest"
  then show "no_enqueued (add_instance i t s)"
    using ne by (simp add: no_enqueued_add_instance)
next
  assume "taskType (the_task (add_instance i t s)) \<noteq> General"
  then show "enat (running_count (add_instance i t s))
               \<le> maxConcurrency (the_task (add_instance i t s))"
    using c by (simp add: running_add_instance [OF shape])
qed

lemma perform_inv:
  assumes one: "1 \<le> maxConcurrency (the_task w)" and inv: "admission_inv w"
  shows "admission_inv (perform w)"
proof -
  let ?t = "the_task w" and ?s = "the_store w"
  let ?k = "length (runningInstances ?s ?t)"
  have shape: "instances ?t = [0..<length (instances ?t)]"
    using inv unfolding admission_inv_def by blast
  have noenq: "taskType ?t \<noteq> Enqueue \<Longrightarrow> taskType ?t \<noteq> KeepLatest \<Longrightarrow> \<forall>a. \<not> isEnqueued (?s a)"
    using inv unfolding admission_inv_def no_enqueued_def by blast
  have ceil: "taskType ?t \<noteq> General \<Longrightarrow> enat ?k \<le> maxConcurrency ?t"
    using inv unfolding admission_inv_def running_count_def by blast
  show ?thesis
  proof (cases "reachedMaxConcurrency ?s ?t")
    case False
    then have below: "enat (Suc ?k) \<le> maxConcurrency ?t"
      by (simp add: reachedMaxConcurrency_def enat_below_ceiling)
    have "perform w = add_instance (started blank_instance) ?t ?s"
      using False by (simp add: perform_def Let_def)
    moreover have "admission_inv (add_instance (started blank_instance) ?t ?s)"
      using shape noenq below
      by (intro add_instance_inv) (simp_all add: started_def blank_instance_def)
    ultimately show ?thesis by simp
  next
    case True
    show ?thesis
    proof (cases "taskType ?t")
      case General
      then have "perform w = add_instance (started blank_instance) ?t ?s"
        using True by (simp add: perform_def Let_def)
      moreover have "admission_inv (add_instance (started blank_instance) ?t ?s)"
        using shape noenq General
        by (intro add_instance_inv) (simp_all add: started_def blank_instance_def)
      ultimately show ?thesis by simp
    next
      case Drop
      then have "perform w = add_instance (dropped blank_instance) ?t ?s"
        using True by (simp add: perform_def Let_def)
      moreover have "admission_inv (add_instance (dropped blank_instance) ?t ?s)"
        using shape noenq ceil Drop
        by (intro add_instance_inv) (simp_all add: dropped_def blank_instance_def)
      ultimately show ?thesis by simp
    next
      case Enqueue
      then have "perform w = add_instance (enqueued blank_instance) ?t ?s"
        using True by (simp add: perform_def Let_def)
      moreover have "admission_inv (add_instance (enqueued blank_instance) ?t ?s)"
        using shape ceil Enqueue
        by (intro add_instance_inv) (simp_all add: enqueued_def blank_instance_def)
      ultimately show ?thesis by simp
    next
      case Restartable
      let ?s' = "cancelFirstRunning ?t ?s"
      have p: "perform w = add_instance (started blank_instance) ?t ?s'"
        using True Restartable by (simp add: perform_def Let_def)
      have ne: "\<forall>a. \<not> isEnqueued (?s a)" using noenq Restartable by simp
      have full: "maxConcurrency ?t \<le> enat ?k"
        using True by (simp add: reachedMaxConcurrency_def)
      have "0 < ?k" using one full by (rule enat_at_ceiling)
      then have "runningInstances ?s ?t \<noteq> []" by auto
      with ne have "length (runningInstances ?s' ?t) < ?k"
        by (rule cancelFirstRunning_frees_slot)
      then have "enat (Suc (length (runningInstances ?s' ?t))) \<le> enat ?k"
        by simp
      also have "\<dots> \<le> maxConcurrency ?t" using ceil Restartable by simp
      finally have c: "enat (Suc (length (runningInstances ?s' ?t))) \<le> maxConcurrency ?t" .
      have ne': "\<forall>a. \<not> isEnqueued (?s' a)"
        using ne by (simp add: cancelFirstRunning_not_enqueued)
      have "admission_inv (add_instance (started blank_instance) ?t ?s')"
        using shape c ne'
        by (intro add_instance_inv) (simp_all add: started_def blank_instance_def)
      then show ?thesis by (simp add: p)
    next
      case KeepLatest
      then have "perform w = add_instance (enqueued blank_instance) ?t (dropEnqueued ?t ?s)"
        using True by (simp add: perform_def Let_def)
      moreover have "admission_inv (add_instance (enqueued blank_instance) ?t (dropEnqueued ?t ?s))"
        using shape ceil KeepLatest
        by (intro add_instance_inv)
          (simp_all add: dropEnqueued_running enqueued_def blank_instance_def)
      ultimately show ?thesis by simp
    qed
  qed
qed


lemma runEnqueued_running_le:
  assumes "distinct (instances t)"
  shows "enat (length (runningInstances s t)) \<le> maxConcurrency t
           \<Longrightarrow> enat (length (runningInstances (runEnqueued t s) t)) \<le> maxConcurrency t"
proof (cases "enqueuedInstances s t")
  case Nil
  then show "enat (length (runningInstances s t)) \<le> maxConcurrency t \<Longrightarrow> ?thesis"
    by (simp add: runEnqueued_def)
next
  case (Cons a rest)
  assume le: "enat (length (runningInstances s t)) \<le> maxConcurrency t"
  show ?thesis
  proof (cases "reachedMaxConcurrency s t")
    case True
    then show ?thesis using le Cons by (simp add: runEnqueued_def)
  next
    case False
    then have below: "enat (Suc (length (runningInstances s t))) \<le> maxConcurrency t"
      by (simp add: reachedMaxConcurrency_def enat_below_ceiling)
    have r: "runEnqueued t s = s(a := started (s a))"
      using False Cons by (simp add: runEnqueued_def)
    have "length (filter (\<lambda>b. isRunning ((s(a := started (s a))) b)) (instances t))
            \<le> Suc (length (filter (\<lambda>b. isRunning (s b)) (instances t)))"
      using assms by (rule filter_length_one_more [where a = a]) simp
    then have "enat (length (runningInstances (runEnqueued t s) t))
                 \<le> enat (Suc (length (runningInstances s t)))"
      by (simp add: r runningInstances_def)
    then show ?thesis using below by (rule order_trans)
  qed
qed

lemma runEnqueued_not_enqueued:
  "\<forall>a. \<not> isEnqueued (s a) \<Longrightarrow> \<not> isEnqueued (runEnqueued t s b)"
  by (simp add: runEnqueued_def enqueuedInstances_def filter_empty_conv)

lemma store_step_inv:
  assumes inv: "admission_inv w"
    and le: "length (runningInstances s' (the_task w)) \<le> length (runningInstances (the_store w) (the_task w))"
    and ne: "\<And>b. \<not> isEnqueued (the_store w b) \<Longrightarrow> \<not> isEnqueued (s' b)"
  shows "admission_inv (w\<lparr>the_store := s'\<rparr>)"
  using inv le ne order_trans [OF _ _, of "enat (length (runningInstances s' (the_task w)))"
      "enat (length (runningInstances (the_store w) (the_task w)))" "maxConcurrency (the_task w)"]
  unfolding admission_inv_def no_enqueued_def running_count_def
  by auto

lemma step_inv:
  assumes one: "1 \<le> maxConcurrency (the_task w)" and inv: "admission_inv w"
  shows "admission_inv (step e w)"
proof (cases e)
  case Perform
  then show ?thesis using perform_inv [OF one inv] by simp
next
  case (Succeed a v)
  have "admission_inv (w\<lparr>the_store := succeed a v (the_store w)\<rparr>)"
  proof (rule store_step_inv [OF inv])
    show "length (runningInstances (succeed a v (the_store w)) (the_task w))
            \<le> length (runningInstances (the_store w) (the_task w))"
      by (simp add: runningInstances_def succeed_running_le)
  next
    fix b
    show "\<not> isEnqueued (the_store w b) \<Longrightarrow> \<not> isEnqueued (succeed a v (the_store w) b)"
      by (auto simp: succeed_def)
  qed
  then show ?thesis using Succeed by simp
next
  case (Fail a e')
  have "admission_inv (w\<lparr>the_store := fail a e' (the_store w)\<rparr>)"
  proof (rule store_step_inv [OF inv])
    show "length (runningInstances (fail a e' (the_store w)) (the_task w))
            \<le> length (runningInstances (the_store w) (the_task w))"
      by (simp add: runningInstances_def fail_running_le)
  next
    fix b
    show "\<not> isEnqueued (the_store w b) \<Longrightarrow> \<not> isEnqueued (fail a e' (the_store w) b)"
      by (auto simp: fail_def)
  qed
  then show ?thesis using Fail by simp
next
  case (CancelInstance a)
  have "admission_inv (w\<lparr>the_store := cancel a (the_store w)\<rparr>)"
  proof (rule store_step_inv [OF inv])
    show "length (runningInstances (cancel a (the_store w)) (the_task w))
            \<le> length (runningInstances (the_store w) (the_task w))"
      by (simp add: runningInstances_def cancel_running_le)
  next
    fix b
    show "\<not> isEnqueued (the_store w b) \<Longrightarrow> \<not> isEnqueued (cancel a (the_store w) b)"
      by (auto simp: cancel_def)
  qed
  then show ?thesis using CancelInstance by simp
next
  case RunEnqueued
  let ?t = "the_task w" and ?s = "the_store w"
  have shape: "instances ?t = [0..<length (instances ?t)]"
    using inv unfolding admission_inv_def by blast
  then have d: "distinct (instances ?t)" by (metis distinct_upt)
  have "admission_inv (w\<lparr>the_store := runEnqueued ?t ?s\<rparr>)"
    unfolding admission_inv_def
  proof (intro conjI impI)
    show "instances (the_task (w\<lparr>the_store := runEnqueued ?t ?s\<rparr>))
            = [0..<length (instances (the_task (w\<lparr>the_store := runEnqueued ?t ?s\<rparr>)))]"
      using shape by simp
  next
    assume "taskType (the_task (w\<lparr>the_store := runEnqueued ?t ?s\<rparr>)) \<noteq> Enqueue \<and>
            taskType (the_task (w\<lparr>the_store := runEnqueued ?t ?s\<rparr>)) \<noteq> KeepLatest"
    then have "\<forall>a. \<not> isEnqueued (?s a)"
      using inv unfolding admission_inv_def no_enqueued_def by simp
    then show "no_enqueued (w\<lparr>the_store := runEnqueued ?t ?s\<rparr>)"
      by (simp add: no_enqueued_def runEnqueued_not_enqueued)
  next
    assume "taskType (the_task (w\<lparr>the_store := runEnqueued ?t ?s\<rparr>)) \<noteq> General"
    then have "enat (length (runningInstances ?s ?t)) \<le> maxConcurrency ?t"
      using inv unfolding admission_inv_def running_count_def by simp
    then have "enat (length (runningInstances (runEnqueued ?t ?s) ?t)) \<le> maxConcurrency ?t"
      by (rule runEnqueued_running_le [OF d])
    then show "enat (running_count (w\<lparr>the_store := runEnqueued ?t ?s\<rparr>))
                 \<le> maxConcurrency (the_task (w\<lparr>the_store := runEnqueued ?t ?s\<rparr>))"
      by (simp add: running_count_def)
  qed
  then show ?thesis using RunEnqueued by simp
qed

lemma step_config:
  "maxConcurrency (the_task (step e w)) = maxConcurrency (the_task w) \<and>
   taskType (the_task (step e w)) = taskType (the_task w)"
  by (cases e) (simp_all add: perform_def Let_def split: policy.split)

lemma fold_step_inv:
  "1 \<le> maxConcurrency (the_task w) \<Longrightarrow> admission_inv w
     \<Longrightarrow> admission_inv (fold step evs w) \<and>
         maxConcurrency (the_task (fold step evs w)) = maxConcurrency (the_task w) \<and>
         taskType (the_task (fold step evs w)) = taskType (the_task w)"
proof (induction evs arbitrary: w)
  case Nil
  then show ?case by simp
next
  case (Cons e evs)
  have "1 \<le> maxConcurrency (the_task (step e w))"
    using Cons.prems(1) by (simp add: step_config)
  moreover have "admission_inv (step e w)"
    using Cons.prems by (rule step_inv)
  ultimately show ?case
    using Cons.IH [of "step e w"] by (simp add: step_config)
qed

lemma init_world_inv: "admission_inv (init_world t)"
  by (simp add: admission_inv_def init_world_def no_enqueued_def running_count_def
      runningInstances_def blank_instance_def flip: zero_enat_def)

lemma init_world_config:
  "maxConcurrency (the_task (init_world t)) = maxConcurrency t \<and>
   taskType (the_task (init_world t)) = taskType t"
  by (simp add: init_world_def taskType_def)

lemma run_events_ceiling:
  assumes "1 \<le> maxConcurrency t" and "taskType t \<noteq> General"
  shows "enat (running_count (run_events evs t)) \<le> maxConcurrency t"
proof -
  have "1 \<le> maxConcurrency (the_task (init_world t))"
    using assms(1) by (simp add: init_world_config)
  from fold_step_inv [OF this init_world_inv, of evs]
  have inv: "admission_inv (run_events evs t)"
    and cfg: "maxConcurrency (the_task (run_events evs t)) = maxConcurrency t"
      "taskType (the_task (run_events evs t)) = taskType t"
    by (simp_all add: run_events_def init_world_config)
  from inv have "taskType (the_task (run_events evs t)) \<noteq> General
      \<longrightarrow> enat (running_count (run_events evs t)) \<le> maxConcurrency (the_task (run_events evs t))"
    unfolding admission_inv_def by blast
  then show ?thesis using assms(2) cfg by simp
qed

subsection \<open>Consistency through the events\<close>

lemma consistent_exclusive:
  "consistent i \<longleftrightarrow>
     \<not> (isRunning i \<and> isEnqueued i) \<and> \<not> (isRunning i \<and> isCanceled i) \<and>
     \<not> (isRunning i \<and> isDropped i) \<and> \<not> (isRunning i \<and> isError i) \<and>
     \<not> (isRunning i \<and> isSuccessful i) \<and> \<not> (isEnqueued i \<and> isCanceled i) \<and>
     \<not> (isEnqueued i \<and> isDropped i) \<and> \<not> (isEnqueued i \<and> isError i) \<and>
     \<not> (isEnqueued i \<and> isSuccessful i) \<and> \<not> (isCanceled i \<and> isDropped i) \<and>
     \<not> (isCanceled i \<and> isError i) \<and> \<not> (isCanceled i \<and> isSuccessful i) \<and>
     \<not> (isDropped i \<and> isError i) \<and> \<not> (isDropped i \<and> isSuccessful i) \<and>
     \<not> (isError i \<and> isSuccessful i)"
  by (cases "isRunning i"; cases "isEnqueued i"; cases "isCanceled i"; cases "isDropped i";
      cases "isError i"; cases "isSuccessful i") (simp_all add: consistent_def status_def)

lemma cancel_consistent: "\<forall>b. consistent (s b) \<Longrightarrow> consistent (cancel a s b)"
  by (auto simp: cancel_def consistent_exclusive)

lemma succeed_consistent: "\<forall>b. consistent (s b) \<Longrightarrow> consistent (succeed a v s b)"
  by (auto simp: succeed_def consistent_exclusive)

lemma fail_consistent: "\<forall>b. consistent (s b) \<Longrightarrow> consistent (fail a e s b)"
  by (auto simp: fail_def consistent_exclusive)

lemma consistent_enqueued_started:
  "consistent i \<Longrightarrow> isEnqueued i \<Longrightarrow> consistent (started i)"
  by (auto simp: started_def consistent_exclusive)

lemma consistent_enqueued_dropped:
  assumes "consistent i" and "isEnqueued i"
  shows "status i = Enqueued"
    and "consistent (i\<lparr>isEnqueued := False, isDropped := True\<rparr>)"
    and "status (i\<lparr>isEnqueued := False, isDropped := True\<rparr>) = Dropped"
proof -
  have others: "\<not> isRunning i" "\<not> isCanceled i" "\<not> isDropped i" "\<not> isError i"
    "\<not> isSuccessful i"
    using assms by (auto simp: consistent_exclusive)
  show "status i = Enqueued" using others assms(2) by (simp add: status_def)
  show "consistent (i\<lparr>isEnqueued := False, isDropped := True\<rparr>)"
    using others by (simp add: consistent_exclusive)
  show "status (i\<lparr>isEnqueued := False, isDropped := True\<rparr>) = Dropped"
    using others by (simp add: status_def)
qed

lemma runEnqueued_consistent: "\<forall>b. consistent (s b) \<Longrightarrow> consistent (runEnqueued t s b)"
proof (cases "enqueuedInstances s t")
  case Nil
  then show "\<forall>b. consistent (s b) \<Longrightarrow> ?thesis" by (simp add: runEnqueued_def)
next
  case (Cons a rest)
  assume c: "\<forall>b. consistent (s b)"
  have "a \<in> set (enqueuedInstances s t)" using Cons by simp
  then have "isEnqueued (s a)" by (simp add: enqueuedInstances_def)
  moreover have "consistent (s a)" using c by simp
  ultimately have "consistent (started (s a))"
    by (rule consistent_enqueued_started [rotated])
  then show ?thesis using c Cons by (simp add: runEnqueued_def)
qed

lemma cancelFirstRunning_consistent:
  "\<forall>b. consistent (s b) \<Longrightarrow> consistent (cancelFirstRunning t s b)"
  by (simp add: cancelFirstRunning_def cancel_consistent split: option.split)

lemma dropEnqueued_consistent: "consistent (s a) \<Longrightarrow> consistent (dropEnqueued t s a)"
  by (simp add: dropEnqueued_def fold_drop_instance enqueuedInstances_def
      consistent_enqueued_dropped(2))

lemma add_instance_consistent:
  "consistent i \<Longrightarrow> \<forall>b. consistent (s b) \<Longrightarrow> all_consistent (add_instance i t s)"
  by (simp add: all_consistent_def add_instance_def Let_def)

lemma fresh_consistent:
  "consistent (started blank_instance)" "consistent (enqueued blank_instance)"
  "consistent (dropped blank_instance)" "consistent blank_instance"
  by (simp_all add: consistent_exclusive started_def enqueued_def dropped_def
      blank_instance_def)

lemma perform_consistent:
  assumes "all_consistent w"
  shows "all_consistent (perform w)"
proof -
  have c: "\<forall>b. consistent (the_store w b)"
    using assms by (simp add: all_consistent_def)
  then have c': "\<forall>b. consistent (cancelFirstRunning (the_task w) (the_store w) b)"
    by (simp add: cancelFirstRunning_consistent)
  have d: "\<forall>b. consistent (dropEnqueued (the_task w) (the_store w) b)"
    using c by (simp add: dropEnqueued_consistent)
  show ?thesis
    using c c' d
    by (cases "taskType (the_task w)")
      (simp_all add: perform_def Let_def add_instance_consistent fresh_consistent)
qed

lemma step_consistent:
  assumes "all_consistent w"
  shows "all_consistent (step e w)"
proof (cases e)
  case Perform
  then show ?thesis using perform_consistent [OF assms] by simp
next
  case (Succeed a v)
  then show ?thesis using assms by (simp add: all_consistent_def succeed_consistent)
next
  case (Fail a e')
  then show ?thesis using assms by (simp add: all_consistent_def fail_consistent)
next
  case (CancelInstance a)
  then show ?thesis using assms by (simp add: all_consistent_def cancel_consistent)
next
  case RunEnqueued
  then show ?thesis using assms by (simp add: all_consistent_def runEnqueued_consistent)
qed

lemma fold_step_consistent:
  "all_consistent w \<Longrightarrow> all_consistent (fold step evs w)"
  by (induction evs arbitrary: w) (simp_all add: step_consistent)

lemma run_events_consistent: "consistent (the_store (run_events evs t) a)"
proof -
  have "all_consistent (init_world t)"
    by (simp add: all_consistent_def init_world_def fresh_consistent)
  then have "all_consistent (run_events evs t)"
    unfolding run_events_def by (rule fold_step_consistent)
  then show ?thesis by (simp add: all_consistent_def)
qed

lemmas run_defs = run_events_def init_world_def perform_def add_instance_def
  reachedMaxConcurrency_def runningInstances_def enqueuedInstances_def activeInstances_def
  cancelFirstRunning_def cancel_def dropEnqueued_def drop_instance_def js_index_def
  taskType_def running_count_def started_def enqueued_def dropped_def blank_instance_def
  succeed_def fail_def runEnqueued_def Let_def one_enat_def

section \<open>The policy helpers\<close>

text \<open>
  Claim C2. When the task has an active instance, \<^verbatim>\<open>cancelFirstRunning\<close> calls
  \<^verbatim>\<open>cancel\<close> on the instance at index 0 of the active subsequence and on no
  other: that instance ends up cancelled, neither running nor enqueued, and
  every other instance of the store is as it was. The instance is the oldest
  active one: every instance before it in invocation order is neither running
  nor enqueued. Where nothing is enqueued, as under the Restartable policy, it
  is the first of the running instances.
\<close>

theorem cancelFirstRunning_cancels_first_active:
  assumes "activeInstances s t = a # rest"
  shows "cancelFirstRunning t s = cancel a s \<and>
         (\<forall>b. b \<noteq> a \<longrightarrow> cancelFirstRunning t s b = s b) \<and>
         isCanceled (cancelFirstRunning t s a) \<and>
         \<not> isRunning (cancelFirstRunning t s a) \<and>
         \<not> isEnqueued (cancelFirstRunning t s a) \<and>
         (\<exists>older newer. instances t = older @ a # newer \<and>
            (\<forall>b \<in> set older. \<not> isRunning (s b) \<and> \<not> isEnqueued (s b))) \<and>
         (enqueuedInstances s t = [] \<longrightarrow> runningInstances s t = a # rest)"
proof -
  have c: "cancelFirstRunning t s = cancel a s"
    using assms by (simp add: cancelFirstRunning_def js_index_0_Cons)
  from filter_Cons_split [OF assms [unfolded activeInstances_def]]
  obtain older newer where sp: "instances t = older @ a # newer"
    and old: "\<forall>b \<in> set older. \<not> (isRunning (s b) \<or> isEnqueued (s b))"
    and act: "isRunning (s a) \<or> isEnqueued (s a)" by blast
  have fr: "\<forall>b. b \<noteq> a \<longrightarrow> cancel a s b = s b" by (simp add: cancel_def)
  have ca: "isCanceled (cancel a s a) \<and> \<not> isRunning (cancel a s a) \<and> \<not> isEnqueued (cancel a s a)"
    using act by (simp add: cancel_def)
  have run: "enqueuedInstances s t = [] \<longrightarrow> runningInstances s t = a # rest"
  proof
    assume "enqueuedInstances s t = []"
    then have "\<forall>b \<in> set (instances t). \<not> isEnqueued (s b)"
      by (simp add: enqueuedInstances_def filter_empty_conv)
    then have "filter (\<lambda>a. isRunning (s a)) (instances t)
                = filter (\<lambda>a. isRunning (s a) \<or> isEnqueued (s a)) (instances t)"
      by (intro filter_cong) auto
    then show "runningInstances s t = a # rest"
      using assms by (simp add: runningInstances_def activeInstances_def)
  qed
  show ?thesis using c fr ca sp old run by auto
qed

theorem cancelFirstRunning_cancels_first_active_witness:
  "activeInstances restart_store restart_task = [1, 2] \<and>
   enqueuedInstances restart_store restart_task = [] \<and>
   runningInstances restart_store restart_task = [1, 2] \<and>
   cancelFirstRunning restart_task restart_store = cancel 1 restart_store \<and>
   isCanceled (cancelFirstRunning restart_task restart_store 1) \<and>
   \<not> isRunning (cancelFirstRunning restart_task restart_store 1) \<and>
   cancelFirstRunning restart_task restart_store 2 = restart_store 2 \<and>
   cancelFirstRunning restart_task restart_store 0 = restart_store 0"
proof -
  have h: "activeInstances restart_store restart_task = [1, 2]"
    by (simp add: activeInstances_def restart_defs)
  have e: "enqueuedInstances restart_store restart_task = []"
    by (simp add: enqueuedInstances_def restart_defs)
  note c = cancelFirstRunning_cancels_first_active [OF h]
  have "runningInstances restart_store restart_task = [1, 2]"
    using c e by blast
  moreover have "cancelFirstRunning restart_task restart_store = cancel 1 restart_store"
    using c by blast
  moreover have "isCanceled (cancelFirstRunning restart_task restart_store 1)"
    and "\<not> isRunning (cancelFirstRunning restart_task restart_store 1)"
    using c by blast+
  moreover have "\<forall>b. b \<noteq> 1 \<longrightarrow> cancelFirstRunning restart_task restart_store b = restart_store b"
    using c by blast
  then have "cancelFirstRunning restart_task restart_store 2 = restart_store 2"
    and "cancelFirstRunning restart_task restart_store 0 = restart_store 0"
    by simp_all
  ultimately show ?thesis using h e by blast
qed

text \<open>
  Claim C10. On a task whose active subsequence is empty, \<^verbatim>\<open>cancelFirstRunning\<close>
  leaves the store as it is: no instance is cancelled or changed, and there is
  no failure branch.
\<close>

theorem cancelFirstRunning_no_active_noop: "activeInstances s t = [] \<Longrightarrow> cancelFirstRunning t s = s"
  by (simp add: cancelFirstRunning_def js_index_Nil)

theorem cancelFirstRunning_no_active_noop_witness:
  "activeInstances idle_store demo_task = [] \<and> cancelFirstRunning demo_task idle_store = idle_store"
proof -
  have h: "activeInstances idle_store demo_task = []"
    by (simp add: activeInstances_def idle_store_def demo_defs)
  show ?thesis using h cancelFirstRunning_no_active_noop [OF h] by simp
qed

text \<open>
  Claim C3. After \<^verbatim>\<open>dropEnqueued\<close>, every instance that was in the enqueued
  subsequence has \<^verbatim>\<open>isEnqueued = false\<close> and \<^verbatim>\<open>isDropped = true\<close> (and its other
  properties as before); every instance outside that subsequence is unchanged,
  in particular every running instance that is not also enqueued.
\<close>

theorem dropEnqueued_marks_enqueued_only:
  "(\<forall>a \<in> set (enqueuedInstances s t).
      \<not> isEnqueued (dropEnqueued t s a) \<and> isDropped (dropEnqueued t s a) \<and>
      dropEnqueued t s a = (s a)\<lparr>isEnqueued := False, isDropped := True\<rparr>) \<and>
   (\<forall>a. a \<notin> set (enqueuedInstances s t) \<longrightarrow> dropEnqueued t s a = s a) \<and>
   (\<forall>a. isRunning (s a) \<and> \<not> isEnqueued (s a) \<longrightarrow> dropEnqueued t s a = s a)"
  by (simp add: dropEnqueued_def fold_drop_instance enqueuedInstances_def)

theorem dropEnqueued_marks_enqueued_only_witness:
  "2 \<in> set (enqueuedInstances demo_store demo_task) \<and>
   \<not> isEnqueued (dropEnqueued demo_task demo_store 2) \<and>
   isDropped (dropEnqueued demo_task demo_store 2) \<and>
   1 \<notin> set (enqueuedInstances demo_store demo_task) \<and>
   isRunning (demo_store 1) \<and>
   dropEnqueued demo_task demo_store 1 = demo_store 1"
proof -
  have h2: "2 \<in> set (enqueuedInstances demo_store demo_task)"
    by (simp add: enqueuedInstances_def demo_defs)
  have h1: "1 \<notin> set (enqueuedInstances demo_store demo_task)"
    by (simp add: enqueuedInstances_def demo_defs)
  have r: "isRunning (demo_store 1)" by (simp add: demo_defs)
  show ?thesis using h1 h2 r dropEnqueued_marks_enqueued_only [of demo_store demo_task] by blast
qed

section \<open>The derived views\<close>

text \<open>
  Claim C5. Reading the view \<^verbatim>\<open>filteredInstances(accessor, key)\<close> in a state
  gives the instances of the accessor's task whose property \<open>key\<close> is true in
  that state, in the order of the instance sequence: it is that sequence
  filtered, a subsequence of it, with exactly those members.
\<close>

theorem filteredInstances_keyed_read:
  "filteredInstances cb (Some key) w
     = filter (\<lambda>a. prop_of (the_store w a) key) (instances (cb w)) \<and>
   subseq (filteredInstances cb (Some key) w) (instances (cb w)) \<and>
   set (filteredInstances cb (Some key) w)
     = {a \<in> set (instances (cb w)). prop_of (the_store w a) key}"
  by (simp add: filteredInstances_def computedFilterBy_def)

theorem filteredInstances_keyed_read_witness:
  "filteredInstances the_task (Some IsEnqueued) demo_world = [2, 3] \<and>
   filteredInstances the_task (Some IsRunning) demo_world = [1] \<and>
   filteredInstances the_task (Some IsRunning) (step (Succeed 1 (Obj 7)) demo_world) = [] \<and>
   filteredInstances the_task (Some IsSuccessful) (step (Succeed 1 (Obj 7)) demo_world) = [1]"
proof -
  let ?w = "step (Succeed 1 (Obj 7)) demo_world"
  have "filter (\<lambda>a. prop_of (the_store demo_world a) IsEnqueued)
          (instances (the_task demo_world)) = [2, 3]"
    and "filter (\<lambda>a. prop_of (the_store demo_world a) IsRunning)
          (instances (the_task demo_world)) = [1]"
    and "filter (\<lambda>a. prop_of (the_store ?w a) IsRunning) (instances (the_task ?w)) = []"
    and "filter (\<lambda>a. prop_of (the_store ?w a) IsSuccessful) (instances (the_task ?w)) = [1]"
    by (simp_all add: demo_world_def succeed_def demo_defs)
  then show ?thesis
    using filteredInstances_keyed_read [of the_task IsEnqueued demo_world]
      filteredInstances_keyed_read [of the_task IsRunning demo_world]
      filteredInstances_keyed_read [of the_task IsRunning ?w]
      filteredInstances_keyed_read [of the_task IsSuccessful ?w]
    by simp
qed

text \<open>
  Claim C6. \<^verbatim>\<open>filteredInstances\<close> called without a key is a view that reads as
  the empty sequence in every state, whatever the accessor returns.
\<close>

theorem filteredInstances_no_key_empty: "filteredInstances cb None w = []"
  by (simp add: filteredInstances_def)

theorem filteredInstances_no_key_empty_witness: "filteredInstances the_task None demo_world = []"
  using filteredInstances_no_key_empty [of the_task demo_world] by simp

text \<open>
  Claim C7. For every sequence accessor, in every state: \<^verbatim>\<open>computedLength\<close>
  reads as the length of the sequence, \<^verbatim>\<open>computedFirstOf\<close> as its first element
  and \<^verbatim>\<open>computedLastOf\<close> as its last element, both \<^verbatim>\<open>undefined\<close> when the
  sequence is empty.
\<close>

theorem computed_length_first_last:
  "computedLength cb w = length (cb w) \<and>
   computedFirstOf cb w = (if cb w = [] then None else Some (hd (cb w))) \<and>
   computedLastOf cb w = (if cb w = [] then None else Some (last (cb w)))"
proof (cases "cb w")
  case Nil
  then show ?thesis
    by (simp add: computedLength_def computedFirstOf_def computedLastOf_def js_index_Nil)
next
  case (Cons x xs)
  then have ne: "cb w \<noteq> []" by simp
  have "computedLastOf cb w = Some (last (cb w))"
    using js_index_last [OF ne] by (simp add: computedLastOf_def)
  moreover have "computedFirstOf cb w = Some (hd (cb w))"
    using Cons by (simp add: computedFirstOf_def js_index_0_Cons)
  ultimately show ?thesis using ne by (simp add: computedLength_def)
qed

theorem computed_length_first_last_witness:
  "computedLength (\<lambda>w. instances (the_task w)) demo_world = 4 \<and>
   computedFirstOf (\<lambda>w. instances (the_task w)) demo_world = Some 0 \<and>
   computedLastOf (\<lambda>w. instances (the_task w)) demo_world = Some 3 \<and>
   computedFirstOf (\<lambda>w. filteredInstances the_task None w) demo_world = None \<and>
   computedLastOf (\<lambda>w. filteredInstances the_task None w) demo_world = None"
proof -
  have i: "instances (the_task demo_world) = [0, 1, 2, 3]"
    by (simp add: demo_world_def demo_defs)
  have e: "filteredInstances the_task None demo_world = []"
    by (simp add: filteredInstances_def)
  show ?thesis
    using computed_length_first_last [of "\<lambda>w. instances (the_task w)" demo_world]
      computed_length_first_last [of "\<lambda>w. filteredInstances the_task None w" demo_world] i e
    by simp
qed

section \<open>Deferred promises and the cancel token\<close>

text \<open>
  Claim C8, as stated for every call, fails where the first call is
  \<^verbatim>\<open>resolve\<close> with a thenable: the call does not settle the promise, which
  follows the thenable. With a thenable that never settles the promise stays
  pending; with a rejected one it ends rejected, although the call was
  \<^verbatim>\<open>resolve\<close>.
\<close>

theorem defer_resolve_thenable_does_not_settle:
  "promise (settle (Resolve (Thenable PendingP)) defer_object) = PendingP \<and>
   promise (fold settle [Resolve (Thenable (Rejected (Str ''x''))), Reject (Str ''late'')]
              defer_object) = Rejected (Str ''x'')"
  by (simp add: resolve_def reject_def defer_object_def)

text \<open>
  Claim C8, amended. The promise of a fresh deferred object is pending. The
  first call of \<^verbatim>\<open>resolve\<close> or \<^verbatim>\<open>reject\<close> decides it, and whatever calls follow,
  in any number and order, the object stays as the first call left it:
  \<^verbatim>\<open>reject\<close> settles it as rejected with the reason, \<^verbatim>\<open>resolve\<close> with a value
  that is not a thenable settles it as fulfilled with the value, \<^verbatim>\<open>resolve\<close>
  with a thenable makes it take the state of the thenable, and \<^verbatim>\<open>resolve\<close> with
  the promise itself rejects it with a \<^verbatim>\<open>TypeError\<close>. No call has a failure
  branch.
\<close>

theorem defer_first_settlement_wins:
  "promise defer_object = PendingP \<and>
   fold settle (c # cs) defer_object = settle c defer_object \<and>
   promise (settle c defer_object) = outcome c \<and>
   promise (fold settle (c # cs) defer_object) = outcome c \<and>
   promise (fold settle (Reject r # cs) defer_object) = Rejected r \<and>
   promise (fold settle (Resolve (Plain v) # cs) defer_object) = Fulfilled v \<and>
   promise (fold settle (Resolve (Thenable p) # cs) defer_object) = p \<and>
   promise (fold settle (Resolve Itself # cs) defer_object) = Rejected TypeErr"
proof -
  have "promise defer_object = PendingP" by (simp add: defer_object_def)
  moreover note fold_settle_Cons [of c cs]
  moreover note settle_first [of c]
  moreover note promise_fold_settle_Cons [of c cs]
  moreover have "promise (fold settle (Reject r # cs) defer_object) = Rejected r"
    unfolding promise_fold_settle_Cons by simp
  moreover have "promise (fold settle (Resolve (Plain v) # cs) defer_object) = Fulfilled v"
    unfolding promise_fold_settle_Cons by simp
  moreover have "promise (fold settle (Resolve (Thenable p) # cs) defer_object) = p"
    unfolding promise_fold_settle_Cons by simp
  moreover have "promise (fold settle (Resolve Itself # cs) defer_object) = Rejected TypeErr"
    unfolding promise_fold_settle_Cons by simp
  ultimately show ?thesis by (simp only: simp_thms)
qed

theorem defer_first_settlement_wins_witness:
  "promise (fold settle [Resolve (Plain Undefined), Reject (Str ''late''), Resolve (Plain (Obj 1))]
              defer_object) = Fulfilled Undefined \<and>
   promise (fold settle [Reject (Str ''cancel''), Reject (Str ''again''), Resolve (Plain Undefined)]
              defer_object) = Rejected (Str ''cancel'') \<and>
   promise (fold settle [Resolve (Thenable (Fulfilled (Obj 2))), Reject (Str ''late'')]
              defer_object) = Fulfilled (Obj 2)"
proof -
  have "promise (fold settle [Resolve (Plain Undefined), Reject (Str ''late''),
            Resolve (Plain (Obj 1))] defer_object) = outcome (Resolve (Plain Undefined))"
    using defer_first_settlement_wins
      [of "Resolve (Plain Undefined)" "[Reject (Str ''late''), Resolve (Plain (Obj 1))]"]
    by blast
  then have a: "promise (fold settle [Resolve (Plain Undefined), Reject (Str ''late''),
            Resolve (Plain (Obj 1))] defer_object) = Fulfilled Undefined"
    by (simp only: outcome.simps resolution_state.simps)
  have "promise (fold settle [Reject (Str ''cancel''), Reject (Str ''again''),
            Resolve (Plain Undefined)] defer_object) = outcome (Reject (Str ''cancel''))"
    using defer_first_settlement_wins
      [of "Reject (Str ''cancel'')" "[Reject (Str ''again''), Resolve (Plain Undefined)]"]
    by blast
  then have b: "promise (fold settle [Reject (Str ''cancel''), Reject (Str ''again''),
            Resolve (Plain Undefined)] defer_object) = Rejected (Str ''cancel'')"
    by (simp only: outcome.simps)
  have "promise (fold settle [Resolve (Thenable (Fulfilled (Obj 2))), Reject (Str ''late'')]
            defer_object) = outcome (Resolve (Thenable (Fulfilled (Obj 2))))"
    using defer_first_settlement_wins
      [of "Resolve (Thenable (Fulfilled (Obj 2)))" "[Reject (Str ''late'')]"]
    by blast
  then have c: "promise (fold settle [Resolve (Thenable (Fulfilled (Obj 2))), Reject (Str ''late'')]
            defer_object) = Fulfilled (Obj 2)"
    by (simp only: outcome.simps resolution_state.simps)
  show ?thesis using a b c by blast
qed

text \<open>
  Claim C9. The token produced by \<^verbatim>\<open>getCancelToken\<close> is cancelled iff the
  promise of the signal is rejected with the marker \<^verbatim>\<open>"cancel"\<close>: not while the
  promise is pending, not when it is fulfilled, not when it is rejected with
  another reason. For a signal whose promise starts pending, that is iff the
  first call of its resolving functions leads to a rejection with
  \<^verbatim>\<open>"cancel"\<close>.
\<close>

theorem getCancelToken_cancels_iff_rejected_cancel:
  "(cancelRequested (getCancelToken signal) \<longleftrightarrow> pr signal = Rejected (Str ''cancel'')) \<and>
   (cancelRequested (getCancelToken \<lparr>pr = promise (fold settle cs defer_object)\<rparr>)
      \<longleftrightarrow> (\<exists>c later. cs = c # later \<and> outcome c = Rejected (Str ''cancel'')))"
proof -
  have a: "cancelRequested (getCancelToken sig) \<longleftrightarrow> pr sig = Rejected (Str ''cancel'')" for sig
    by (cases "pr sig") (simp_all add: getCancelToken_def promise_catch_def new_token_def token_cancel_def)
  have b: "promise (fold settle cs defer_object) = Rejected (Str ''cancel'')
             \<longleftrightarrow> (\<exists>c later. cs = c # later \<and> outcome c = Rejected (Str ''cancel''))"
  proof (cases cs)
    case Nil
    then show ?thesis by (simp add: defer_object_def)
  next
    case (Cons c later)
    have "promise (fold settle cs defer_object) = outcome c"
      unfolding Cons by (rule promise_fold_settle_Cons)
    then show ?thesis using Cons by simp
  qed
  show ?thesis using a b by simp
qed

theorem getCancelToken_cancels_iff_rejected_cancel_witness:
  "cancelRequested (getCancelToken \<lparr>pr = Rejected (Str ''cancel'')\<rparr>) \<and>
   \<not> cancelRequested (getCancelToken \<lparr>pr = PendingP\<rparr>) \<and>
   \<not> cancelRequested (getCancelToken \<lparr>pr = Fulfilled (Str ''cancel'')\<rparr>) \<and>
   \<not> cancelRequested (getCancelToken \<lparr>pr = Rejected (Str ''timeout'')\<rparr>)"
  using getCancelToken_cancels_iff_rejected_cancel [of "\<lparr>pr = Rejected (Str ''cancel'')\<rparr>"] getCancelToken_cancels_iff_rejected_cancel [of "\<lparr>pr = PendingP\<rparr>"]
    getCancelToken_cancels_iff_rejected_cancel [of "\<lparr>pr = Fulfilled (Str ''cancel'')\<rparr>"] getCancelToken_cancels_iff_rejected_cancel [of "\<lparr>pr = Rejected (Str ''timeout'')\<rparr>"]
  by simp

section \<open>The concurrency ceiling\<close>

text \<open>
  Claim C1, as stated for every task, fails: a General task enforces no
  ceiling, so with \<^verbatim>\<open>maxConcurrency = 1\<close> two calls of \<^verbatim>\<open>perform\<close> leave two
  instances running.
\<close>

theorem general_task_exceeds_ceiling:
  "\<not> enat (running_count (run_events [Perform, Perform] general1)) \<le> maxConcurrency general1"
  by (simp add: general1_def run_defs)

text \<open>
  Claim C1, amended. For a task with \<^verbatim>\<open>maxConcurrency \<ge> 1\<close> that has a policy
  flag set (Drop, Enqueue, Restartable or KeepLatest), or whose ceiling is
  unbounded, the number of running instances is at most \<^verbatim>\<open>maxConcurrency\<close> after
  every sequence of events (admissions, completions, failures, cancellations,
  promotions of enqueued instances), and the ceiling itself never changes.
  The admission check \<^verbatim>\<open>reachedMaxConcurrency\<close> is true iff the length of the
  running sequence is at least \<^verbatim>\<open>maxConcurrency\<close>.
\<close>

theorem running_within_ceiling_under_policy:
  assumes "1 \<le> maxConcurrency t"
    and "isDropping t \<or> isEnqueuing t \<or> isRestartable t \<or> isKeepingLatest t \<or> maxConcurrency t = \<infinity>"
  shows "enat (running_count (run_events evs t)) \<le> maxConcurrency t \<and>
         maxConcurrency (the_task (run_events evs t)) = maxConcurrency t \<and>
         (reachedMaxConcurrency s t'
            \<longleftrightarrow> maxConcurrency t' \<le> enat (length (runningInstances s t')))"
proof -
  have cfg: "maxConcurrency (the_task (run_events evs t)) = maxConcurrency t"
  proof -
    have "1 \<le> maxConcurrency (the_task (init_world t))"
      using assms(1) by (simp add: init_world_config)
    from fold_step_inv [OF this init_world_inv, of evs] show ?thesis
      by (simp add: run_events_def init_world_config)
  qed
  have "enat (running_count (run_events evs t)) \<le> maxConcurrency t"
  proof (cases "taskType t = General")
    case False
    with assms(1) show ?thesis by (rule run_events_ceiling)
  next
    case True
    then have "maxConcurrency t = \<infinity>"
      using assms(2) by (auto simp: taskType_def split: if_splits)
    then show ?thesis by simp
  qed
  then show ?thesis using cfg by (simp add: reachedMaxConcurrency_def)
qed

theorem running_within_ceiling_under_policy_witness:
  "1 \<le> maxConcurrency demo_task \<and> isKeepingLatest demo_task \<and>
   running_count (run_events [Perform, Perform, Perform] demo_task) = 1 \<and>
   enat (running_count (run_events [Perform, Perform, Perform] demo_task)) \<le> maxConcurrency demo_task"
proof -
  have h1: "1 \<le> maxConcurrency demo_task" by (simp add: demo_task_def)
  have h2: "isKeepingLatest demo_task" by (simp add: demo_task_def)
  have r: "running_count (run_events [Perform, Perform, Perform] demo_task) = 1"
    by (simp add: demo_task_def run_defs)
  show ?thesis using h1 h2 r running_within_ceiling_under_policy [of demo_task "[Perform, Perform, Perform]"] by blast
qed

section \<open>Booleans and status\<close>

text \<open>
  Claim C4. For every task, of whatever policy, and after every sequence of
  events, each of the six booleans of every instance is true iff the status of
  the instance is the value of the same name. \<^verbatim>\<open>dropEnqueued\<close> keeps that
  agreement on every instance that has it, and so does \<^verbatim>\<open>cancelFirstRunning\<close>.
  The status moves with the booleans and cannot be set apart from them: an
  instance that \<^verbatim>\<open>dropEnqueued\<close> drops had the status \<^verbatim>\<open>enqueued\<close> and has the
  status \<^verbatim>\<open>dropped\<close> afterwards.
\<close>

theorem booleans_agree_with_status:
  "consistent (the_store (run_events evs t) a) \<and>
   (consistent (s a) \<longrightarrow> consistent (dropEnqueued t' s a)) \<and>
   ((\<forall>b. consistent (s b)) \<longrightarrow> consistent (cancelFirstRunning t' s a)) \<and>
   (consistent (s a) \<and> a \<in> set (enqueuedInstances s t') \<longrightarrow>
      status (s a) = Enqueued \<and> status (dropEnqueued t' s a) = Dropped \<and>
      \<not> isEnqueued (dropEnqueued t' s a) \<and> isDropped (dropEnqueued t' s a))"
proof (intro conjI impI)
  show "consistent (the_store (run_events evs t) a)"
    by (rule run_events_consistent)
next
  assume "consistent (s a)"
  then show "consistent (dropEnqueued t' s a)"
    by (rule dropEnqueued_consistent)
next
  assume "\<forall>b. consistent (s b)"
  then show "consistent (cancelFirstRunning t' s a)"
    by (rule cancelFirstRunning_consistent)
next
  assume h: "consistent (s a) \<and> a \<in> set (enqueuedInstances s t')"
  then have c: "consistent (s a)" and e: "isEnqueued (s a)"
    by (simp_all add: enqueuedInstances_def)
  have d: "dropEnqueued t' s a = (s a)\<lparr>isEnqueued := False, isDropped := True\<rparr>"
    using h by (simp add: dropEnqueued_def fold_drop_instance)
  show "status (s a) = Enqueued"
    using c e by (rule consistent_enqueued_dropped(1))
  show "status (dropEnqueued t' s a) = Dropped"
    unfolding d using c e by (rule consistent_enqueued_dropped(3))
  show "\<not> isEnqueued (dropEnqueued t' s a)" by (simp add: d)
  show "isDropped (dropEnqueued t' s a)" by (simp add: d)
qed

theorem booleans_agree_with_status_witness:
  "consistent (the_store (run_events [Perform, Perform, Perform, CancelInstance 0] demo_task) 1) \<and>
   status (the_store (run_events [Perform, Perform, Perform, CancelInstance 0] demo_task) 0) = Canceled \<and>
   status (the_store (run_events [Perform, Perform, Perform, CancelInstance 0] demo_task) 1) = Dropped \<and>
   status (the_store (run_events [Perform, Perform, Perform, CancelInstance 0] demo_task) 2) = Enqueued \<and>
   consistent (demo_store 2) \<and> 2 \<in> set (enqueuedInstances demo_store demo_task) \<and>
   consistent (dropEnqueued demo_task demo_store 2) \<and>
   consistent (cancelFirstRunning demo_task demo_store 1) \<and>
   status (demo_store 2) = Enqueued \<and>
   status (dropEnqueued demo_task demo_store 2) = Dropped"
proof -
  let ?evs = "[Perform, Perform, Perform, CancelInstance 0]"
  have c: "\<forall>b. consistent (demo_store b)"
    by (simp add: consistent_exclusive demo_defs)
  then have c2: "consistent (demo_store 2)" by blast
  have m2: "2 \<in> set (enqueuedInstances demo_store demo_task)"
    by (simp add: enqueuedInstances_def demo_defs)
  have st: "status (the_store (run_events ?evs demo_task) 0) = Canceled"
    "status (the_store (run_events ?evs demo_task) 1) = Dropped"
    "status (the_store (run_events ?evs demo_task) 2) = Enqueued"
    by (simp_all add: status_def demo_task_def run_defs)
  show ?thesis
    using c c2 m2 st
      booleans_agree_with_status [of ?evs demo_task 1 demo_store demo_task]
      booleans_agree_with_status [of ?evs demo_task 2 demo_store demo_task]
    by blast
qed

end
